theory Spec2Isabelle
  imports Main
begin

section \<open>The automaton of DFA.c\<close>

text \<open>
  The C program keeps a deterministic finite automaton in a heap-allocated \<open>struct dfa\<close>
  and offers \<open>createDFA\<close>, \<open>indexOf\<close>, \<open>addTransition\<close> and \<open>checkString\<close>.
  The embedding below follows the source function by function.

  \<^item> The struct is a record with the source's field names. The three arrays it points to
    are lists. A cell of the transition table is \<open>None\<close> while it still holds what
    \<open>malloc\<close> returned (an indeterminate value) and \<open>Some v\<close> once the program has
    stored \<open>v\<close> in it.
  \<^item> A C \<open>int\<close> is an \<open>int\<close>. The three places where the source computes with one
    beyond counting a loop are written out: the narrowing of \<open>strlen\<close>'s result to
    \<open>int\<close> wraps around modulo \<open>2 ^ 32\<close>; the product in \<open>createDFA\<close> and the decrement
    in \<open>addTransition\<close> are undefined in C when they leave the range of \<open>int\<close>, and are
    faults here.
  \<^item> Behaviour that C leaves undefined is a value: an access outside an array is
    \<open>Inl OutOfBounds\<close>, the use of a table cell that was never stored is
    \<open>Inl UninitialisedRead\<close>. \<open>Inr\<close> is a normal return.
  \<^item> A C string is the list of its characters before the terminating NUL.
  \<^item> Allocation is taken to succeed.
\<close>

datatype fault = OutOfBounds | UninitialisedRead | SignedOverflow

record dfa =
  characters :: int
  states :: int
  initialState :: int
  numberOfFinalStates :: int
  finalStates :: "int list"
  incompleteCells :: int
  characterSet :: "char list"
  transitionTable :: "int option list list"

definition ERROR_INCOMPLETE_TABLE :: int where
  "ERROR_INCOMPLETE_TABLE = - 22"

definition ERROR_INVALID_CHARACTER_IN_INPUT :: int where
  "ERROR_INVALID_CHARACTER_IN_INPUT = - 20"

definition INT_MAX :: int where
  "INT_MAX = 2147483647"

definition INT_MIN :: int where
  "INT_MIN = - 2147483648"

text \<open>
  The value an \<open>int\<close> variable gets from a \<open>size_t\<close> (the result of \<open>strlen\<close>).
  Up to \<open>INT_MAX\<close> the value is kept; beyond it C leaves the result to the
  implementation, and the usual one, the low 32 bits read in two's complement, is written
  out.
\<close>

definition int_of_size :: "nat \<Rightarrow> int" where
  "int_of_size n = (int n + 2147483648) mod 4294967296 - 2147483648"

subsection \<open>Array accesses\<close>

definition array_read :: "'a list \<Rightarrow> int \<Rightarrow> fault + 'a" where
  "array_read xs i =
     (if 0 \<le> i \<and> i < int (length xs) then Inr (xs ! nat i) else Inl OutOfBounds)"

text \<open>\<open>t[r][c]\<close> as a value: the row pointer is read, then the cell.\<close>

definition table_read :: "int option list list \<Rightarrow> int \<Rightarrow> int \<Rightarrow> fault + int" where
  "table_read t r c =
     (case array_read t r of
        Inl e \<Rightarrow> Inl e
      | Inr row \<Rightarrow>
          (case array_read row c of
             Inl e \<Rightarrow> Inl e
           | Inr None \<Rightarrow> Inl UninitialisedRead
           | Inr (Some v) \<Rightarrow> Inr v))"

text \<open>\<open>t[r][c] = v\<close>. The rows are separate allocations, so only row \<open>r\<close> changes.\<close>

definition table_write ::
  "int option list list \<Rightarrow> int \<Rightarrow> int \<Rightarrow> int \<Rightarrow> fault + int option list list" where
  "table_write t r c v =
     (case array_read t r of
        Inl e \<Rightarrow> Inl e
      | Inr row \<Rightarrow>
          (if 0 \<le> c \<and> c < int (length row)
           then Inr (t[nat r := row[nat c := Some v]])
           else Inl OutOfBounds))"

subsection \<open>createDFA\<close>

text \<open>
  Lines 36 to 66. The loop of line 50 copies \<open>nFinStates\<close> entries of the caller's array,
  the loop of line 58 copies \<open>strlen(chars)\<close> characters, the loop of line 62 allocates
  \<open>nStates\<close> rows of \<open>strlen(chars)\<close> cells each and stores nothing in them.
  A negative count runs none of these loops.
\<close>

definition createDFA :: "string \<Rightarrow> int \<Rightarrow> int \<Rightarrow> int \<Rightarrow> int list \<Rightarrow> fault + dfa" where
  "createDFA chars nStates initState nFinStates finStates =
     (if int (length finStates) < nFinStates then Inl OutOfBounds
      else
        let n = int_of_size (length chars) in
        if nStates * n < INT_MIN \<or> INT_MAX < nStates * n then Inl SignedOverflow
        else Inr \<lparr>
          characters = n,
          states = nStates,
          initialState = initState,
          numberOfFinalStates = nFinStates,
          finalStates = take (nat nFinStates) finStates,
          incompleteCells = nStates * n,
          characterSet = take (nat n) chars,
          transitionTable = replicate (nat nStates) (replicate (nat n) None) \<rparr>)"

subsection \<open>indexOf\<close>

text \<open>Lines 77 to 86: the loop over \<open>i\<close>, entered at \<open>i = 0\<close>.\<close>

function indexOf_loop :: "dfa \<Rightarrow> char \<Rightarrow> int \<Rightarrow> fault + int" where
  "indexOf_loop d c i =
     (if i < characters d then
        (case array_read (characterSet d) i of
           Inl e \<Rightarrow> Inl e
         | Inr x \<Rightarrow> if c = x then Inr i else indexOf_loop d c (i + 1))
      else Inr (- 1))"
  by pat_completeness auto
termination
  by (relation "measure (\<lambda>(d, c, i). nat (characters d - i))") auto

definition indexOf :: "dfa \<Rightarrow> char \<Rightarrow> fault + int" where
  "indexOf d c = indexOf_loop d c 0"

subsection \<open>addTransition\<close>

text \<open>
  Lines 97 to 105. The function returns nothing; the model returns the automaton as the
  call leaves it.
\<close>

definition addTransition :: "dfa \<Rightarrow> int \<Rightarrow> char \<Rightarrow> int \<Rightarrow> fault + dfa" where
  "addTransition d initState inp finalState =
     (case indexOf d inp of
        Inl e \<Rightarrow> Inl e
      | Inr index \<Rightarrow>
          if index < 0 then Inr d
          else
            (case table_write (transitionTable d) initState index finalState of
               Inl e \<Rightarrow> Inl e
             | Inr t \<Rightarrow>
                 if incompleteCells d - 1 < INT_MIN then Inl SignedOverflow
                 else Inr (d\<lparr>transitionTable := t,
                             incompleteCells := incompleteCells d - 1\<rparr>)))"

subsection \<open>checkString\<close>

text \<open>
  Lines 125 to 132, the loop over the input: it either leaves the function with a code
  (\<open>Returned\<close>) or runs to the end in a state (\<open>Finished\<close>).
\<close>

datatype scan = Returned int | Finished int

function scan_loop :: "dfa \<Rightarrow> string \<Rightarrow> int \<Rightarrow> int \<Rightarrow> int \<Rightarrow> fault + scan" where
  "scan_loop d inp l i state =
     (if i < l then
        (case array_read inp i of
           Inl e \<Rightarrow> Inl e
         | Inr ch \<Rightarrow>
             (case indexOf d ch of
                Inl e \<Rightarrow> Inl e
              | Inr index \<Rightarrow>
                  if index < 0 then Inr (Returned ERROR_INVALID_CHARACTER_IN_INPUT)
                  else
                    (case table_read (transitionTable d) state index of
                       Inl e \<Rightarrow> Inl e
                     | Inr state' \<Rightarrow> scan_loop d inp l (i + 1) state')))
      else Inr (Finished state))"
  by pat_completeness auto
termination
  by (relation "measure (\<lambda>(d, inp, l, i, state). nat (l - i))") auto

text \<open>Lines 135 to 144, the loop over the final states: the value of the flag \<open>index\<close>.\<close>

function final_loop :: "dfa \<Rightarrow> int \<Rightarrow> int \<Rightarrow> fault + int" where
  "final_loop d state i =
     (if i < numberOfFinalStates d then
        (case array_read (finalStates d) i of
           Inl e \<Rightarrow> Inl e
         | Inr f \<Rightarrow> if state = f then Inr 1 else final_loop d state (i + 1))
      else Inr 0)"
  by pat_completeness auto
termination
  by (relation "measure (\<lambda>(d, state, i). nat (numberOfFinalStates d - i))") auto

text \<open>Lines 116 to 145.\<close>

definition checkString :: "dfa \<Rightarrow> string \<Rightarrow> fault + int" where
  "checkString d inp =
     (if incompleteCells d \<noteq> 0 then Inr ERROR_INCOMPLETE_TABLE
      else
        (case scan_loop d inp (int_of_size (length inp)) 0 (initialState d) of
           Inl e \<Rightarrow> Inl e
         | Inr (Returned code) \<Rightarrow> Inr code
         | Inr (Finished state) \<Rightarrow> final_loop d state 0))"

declare indexOf_loop.simps [simp del]
declare scan_loop.simps [simp del]
declare final_loop.simps [simp del]

subsection \<open>The structs the program builds\<close>

text \<open>
  What \<open>createDFA\<close> establishes between the counts and the arrays of the struct, and
  \<open>addTransition\<close> keeps (lemmas \<open>createDFA_wf\<close> and \<open>addTransition_wf\<close> below): the
  arrays have the lengths the count fields say. No function of the program assigns to a
  count field or to the two copied arrays after construction.
\<close>

definition wf_dfa :: "dfa \<Rightarrow> bool" where
  "wf_dfa d \<longleftrightarrow>
     length (characterSet d) = nat (characters d) \<and>
     length (finalStates d) = nat (numberOfFinalStates d) \<and>
     length (transitionTable d) = nat (states d) \<and>
     (\<forall>row \<in> set (transitionTable d). length row = nat (characters d))"

text \<open>
  A caller's sequence of \<open>addTransition\<close> calls, each given as
  \<open>(initState, inp, finalState)\<close>, then the automaton built by \<open>createDFA\<close> followed by
  such a sequence, and \<open>checkString\<close> on it.
\<close>

fun add_all :: "dfa \<Rightarrow> (int \<times> char \<times> int) list \<Rightarrow> fault + dfa" where
  "add_all d [] = Inr d"
| "add_all d ((p, a, q) # ts) =
     (case addTransition d p a q of Inl e \<Rightarrow> Inl e | Inr d' \<Rightarrow> add_all d' ts)"

definition build ::
  "string \<Rightarrow> int \<Rightarrow> int \<Rightarrow> int \<Rightarrow> int list \<Rightarrow> (int \<times> char \<times> int) list \<Rightarrow> fault + dfa" where
  "build chars nStates initState nFinStates finStates ts =
     (case createDFA chars nStates initState nFinStates finStates of
        Inl e \<Rightarrow> Inl e
      | Inr d \<Rightarrow> add_all d ts)"

definition check_built ::
  "string \<Rightarrow> int \<Rightarrow> int \<Rightarrow> int \<Rightarrow> int list \<Rightarrow> (int \<times> char \<times> int) list \<Rightarrow> string
     \<Rightarrow> fault + int" where
  "check_built chars nStates initState nFinStates finStates ts inp =
     (case build chars nStates initState nFinStates finStates ts of
        Inl e \<Rightarrow> Inl e
      | Inr d \<Rightarrow> checkString d inp)"

text \<open>The transitions of the automaton for the binary numbers divisible by three.\<close>

definition div3 :: "(int \<times> char \<times> int) list" where
  "div3 = [(0, CHR ''0'', 0), (0, CHR ''1'', 1), (1, CHR ''0'', 2),
           (1, CHR ''1'', 0), (2, CHR ''0'', 1), (2, CHR ''1'', 2)]"

subsection \<open>The specification's reading of an evaluation\<close>

text \<open>
  The four outcomes the specification names, and the integers by which \<open>checkString\<close>
  reports them: the two error codes of lines 6 and 7, and the flag of lines 135 to 144,
  which the driver prints as "Accepted" when it is 1.
\<close>

datatype outcome = Accepted | Rejected | IncompleteTable | InvalidSymbol

fun outcome_code :: "outcome \<Rightarrow> int" where
  "outcome_code Accepted = 1"
| "outcome_code Rejected = 0"
| "outcome_code IncompleteTable = ERROR_INCOMPLETE_TABLE"
| "outcome_code InvalidSymbol = ERROR_INVALID_CHARACTER_IN_INPUT"

definition map_result :: "('a \<Rightarrow> 'b) \<Rightarrow> fault + 'a \<Rightarrow> fault + 'b" where
  "map_result f r = (case r of Inl e \<Rightarrow> Inl e | Inr x \<Rightarrow> Inr (f x))"

text \<open>
  The specification's data model, read off the struct without any function of the
  program. The symbol index is the first position of the symbol in the alphabet. The
  transition table maps a state and a symbol index to the target that was set for them;
  a pair outside the table, or a cell that was never set, has no target.
\<close>

fun SymbolIndex :: "char list \<Rightarrow> char \<Rightarrow> nat option" where
  "SymbolIndex [] symbol = None"
| "SymbolIndex (a # alphabet) symbol =
     (if a = symbol then Some 0 else map_option Suc (SymbolIndex alphabet symbol))"

definition spec_table :: "dfa \<Rightarrow> int \<Rightarrow> nat \<Rightarrow> int option" where
  "spec_table d q k =
     (if 0 \<le> q \<and> nat q < length (transitionTable d) \<and>
         k < length (transitionTable d ! nat q)
      then transitionTable d ! nat q ! k
      else None)"

text \<open>
  The evaluation as the specification words it, by recursion over the symbols of the
  input from left to right: a symbol with no symbol index ends it at once
  (\<open>BadSymbol\<close>), any other symbol replaces the current state by the table's target for
  the current state and the symbol's index, and when the symbols are used up the
  evaluation ends in the current state (\<open>EndsIn\<close>). Where the table has no target the
  specification gives no outcome (\<open>NoEntry\<close>).
\<close>

datatype spec_run = NoEntry | BadSymbol | EndsIn int

fun spec_fold :: "dfa \<Rightarrow> int \<Rightarrow> string \<Rightarrow> spec_run" where
  "spec_fold d current [] = EndsIn current"
| "spec_fold d current (symbol # rest) =
     (case SymbolIndex (characterSet d) symbol of
        None \<Rightarrow> BadSymbol
      | Some symbolIndex \<Rightarrow>
          (case spec_table d current symbolIndex of
             None \<Rightarrow> NoEntry
           | Some next \<Rightarrow> spec_fold d next rest))"

definition spec_checkString :: "dfa \<Rightarrow> string \<Rightarrow> outcome option" where
  "spec_checkString d input =
     (case spec_fold d (initialState d) input of
        NoEntry \<Rightarrow> None
      | BadSymbol \<Rightarrow> Some InvalidSymbol
      | EndsIn current \<Rightarrow>
          Some (if current \<in> set (finalStates d) then Accepted else Rejected))"

text \<open>
  What a call returned, if it returned; and how the loop of lines 125 to 132 leaves, for
  each end of the recursion above.
\<close>

definition result_of :: "fault + 'a \<Rightarrow> 'a option" where
  "result_of r = (case r of Inl e \<Rightarrow> None | Inr x \<Rightarrow> Some x)"

definition scan_of :: "spec_run \<Rightarrow> scan option" where
  "scan_of r =
     (case r of
        NoEntry \<Rightarrow> None
      | BadSymbol \<Rightarrow> Some (Returned ERROR_INVALID_CHARACTER_IN_INPUT)
      | EndsIn q \<Rightarrow> Some (Finished q))"

subsection \<open>A fully registered automaton\<close>

text \<open>
  The struct after \<open>createDFA("01", 3, 0, 1, {0})\<close> and the six registrations of \<open>div3\<close>
  (lemma \<open>build_div3\<close> below).
\<close>

definition div3_dfa :: dfa where
  "div3_dfa = \<lparr>
     characters = 2, states = 3, initialState = 0, numberOfFinalStates = 1,
     finalStates = [0], incompleteCells = 0, characterSet = ''01'',
     transitionTable = [[Some 0, Some 1], [Some 2, Some 0], [Some 1, Some 2]] \<rparr>"

text \<open>
  The same construction without the registration of \<open>(2, '1')\<close>, and the struct it
  leaves (lemma \<open>build_div3_incomplete\<close> below).
\<close>

definition div3_incomplete :: "(int \<times> char \<times> int) list" where
  "div3_incomplete = [(0, CHR ''0'', 0), (0, CHR ''1'', 1), (1, CHR ''0'', 2),
                      (1, CHR ''1'', 0), (2, CHR ''0'', 1)]"

definition div3_incomplete_dfa :: dfa where
  "div3_incomplete_dfa = \<lparr>
     characters = 2, states = 3, initialState = 0, numberOfFinalStates = 1,
     finalStates = [0], incompleteCells = 1, characterSet = ''01'',
     transitionTable = [[Some 0, Some 1], [Some 2, Some 0], [Some 1, None]] \<rparr>"

subsection \<open>checkString as a run on the machine state\<close>

text \<open>
  A second embedding of lines 77 to 86 and 116 to 145, statement by statement, on the
  state a call works on: the struct that the pointer \<open>dfa\<close> refers to, and the locals
  \<open>state\<close>, \<open>index\<close>, \<open>l\<close> and \<open>i\<close> of \<open>checkString\<close>. Every statement takes the
  state and gives the state after it, so a store through \<open>dfa\<close> would show in the struct
  that the run returns. \<open>indexOf\<close> is given the pointer too, and returns the struct with
  its result.
\<close>

record locals =
  loc_state :: int
  loc_index :: int
  loc_l :: int
  loc_i :: int

function indexOf_exec_loop :: "dfa \<Rightarrow> char \<Rightarrow> int \<Rightarrow> fault + dfa \<times> int" where
  "indexOf_exec_loop h c i =
     (if i < characters h then
        (case array_read (characterSet h) i of
           Inl e \<Rightarrow> Inl e
         | Inr x \<Rightarrow> if c = x then Inr (h, i) else indexOf_exec_loop h c (i + 1))
      else Inr (h, - 1))"
  by pat_completeness auto
termination
  by (relation "measure (\<lambda>(h, c, i). nat (characters h - i))") auto

definition indexOf_exec :: "dfa \<Rightarrow> char \<Rightarrow> fault + dfa \<times> int" where
  "indexOf_exec h c = indexOf_exec_loop h c 0"

text \<open>
  The loop of lines 125 to 132. It leaves with the state and, when line 129 returned,
  the code returned.
\<close>

function scan_exec :: "string \<Rightarrow> dfa \<times> locals \<Rightarrow> fault + dfa \<times> locals \<times> int option" where
  "scan_exec inp (h, v) =
     (if loc_i v < loc_l v then
        (case array_read inp (loc_i v) of
           Inl e \<Rightarrow> Inl e
         | Inr ch \<Rightarrow>
             (case indexOf_exec h ch of
                Inl e \<Rightarrow> Inl e
              | Inr (h', r) \<Rightarrow>
                  if r < 0
                  then Inr (h', v\<lparr>loc_index := r\<rparr>, Some ERROR_INVALID_CHARACTER_IN_INPUT)
                  else
                    (case table_read (transitionTable h') (loc_state v) r of
                       Inl e \<Rightarrow> Inl e
                     | Inr q \<Rightarrow>
                         scan_exec inp
                           (h', v\<lparr>loc_index := r, loc_state := q, loc_i := loc_i v + 1\<rparr>))))
      else Inr (h, v, None))"
  by pat_completeness auto
termination
  by (relation "measure (\<lambda>(inp, h, v). nat (loc_l v - loc_i v))") auto

text \<open>The loop of lines 137 to 142, entered with the flag \<open>index\<close> at 0.\<close>

function final_exec :: "dfa \<times> locals \<Rightarrow> fault + dfa \<times> locals" where
  "final_exec (h, v) =
     (if loc_i v < numberOfFinalStates h then
        (case array_read (finalStates h) (loc_i v) of
           Inl e \<Rightarrow> Inl e
         | Inr f \<Rightarrow>
             if loc_state v = f then Inr (h, v\<lparr>loc_index := 1\<rparr>)
             else final_exec (h, v\<lparr>loc_i := loc_i v + 1\<rparr>))
      else Inr (h, v))"
  by pat_completeness auto
termination
  by (relation "measure (\<lambda>(h, v). nat (numberOfFinalStates h - loc_i v))") auto

text \<open>
  The whole function. \<open>v0\<close> is what the locals hold at entry: line 120 and 124 set
  \<open>state\<close> and \<open>l\<close>, the loop header sets \<open>i\<close>, and \<open>index\<close> is assigned in the
  loop before it is read. The call returns the struct as it leaves it and the value of
  line 118, 129 or 144.
\<close>

definition checkString_exec :: "dfa \<Rightarrow> locals \<Rightarrow> string \<Rightarrow> fault + dfa \<times> int" where
  "checkString_exec h v0 inp =
     (if incompleteCells h \<noteq> 0 then Inr (h, ERROR_INCOMPLETE_TABLE)
      else
        (case scan_exec inp
                (h, v0\<lparr>loc_state := initialState h,
                       loc_l := int_of_size (length inp), loc_i := 0\<rparr>) of
           Inl e \<Rightarrow> Inl e
         | Inr (h', v, Some code) \<Rightarrow> Inr (h', code)
         | Inr (h', v, None) \<Rightarrow>
             (case final_exec (h', v\<lparr>loc_index := 0, loc_i := 0\<rparr>) of
                Inl e \<Rightarrow> Inl e
              | Inr (h'', v') \<Rightarrow> Inr (h'', loc_index v'))))"

text \<open>
  A caller's sequence of calls, each on the struct the call before left, as in the loop
  of lines 204 to 212.
\<close>

fun check_all :: "dfa \<Rightarrow> (locals \<times> string) list \<Rightarrow> fault + dfa \<times> int list" where
  "check_all h [] = Inr (h, [])"
| "check_all h ((v0, inp) # calls) =
     (case checkString_exec h v0 inp of
        Inl e \<Rightarrow> Inl e
      | Inr (h', r) \<Rightarrow>
          (case check_all h' calls of
             Inl e \<Rightarrow> Inl e
           | Inr (h'', rs) \<Rightarrow> Inr (h'', r # rs)))"

subsection \<open>A table with every cell registered\<close>

text \<open>
  The data model's requirement on an automaton that is evaluated: the initial state is a
  state, and every cell of the table holds a stored target that is a state.
\<close>

definition populated :: "dfa \<Rightarrow> bool" where
  "populated d \<longleftrightarrow>
     0 \<le> initialState d \<and> initialState d < states d \<and>
     (\<forall>row \<in> set (transitionTable d). \<forall>cell \<in> set row.
        \<exists>q. cell = Some q \<and> 0 \<le> q \<and> q < states d)"

declare indexOf_exec_loop.simps [simp del]
declare scan_exec.simps [simp del]
declare final_exec.simps [simp del]

section \<open>Properties\<close>

subsection \<open>The narrowing of a length\<close>

lemma int_of_size_le: "int_of_size n \<le> int n"
  unfolding int_of_size_def
proof -
  have "(int n + 2147483648) mod 4294967296 \<le> int n + 2147483648"
    by (rule zmod_le_nonneg_dividend) simp
  then show "(int n + 2147483648) mod 4294967296 - 2147483648 \<le> int n" by simp
qed

lemma int_of_size_small: "int n \<le> INT_MAX \<Longrightarrow> int_of_size n = int n"
  by (simp add: int_of_size_def INT_MAX_def)

subsection \<open>The shape of the struct is kept\<close>

lemma createDFA_wf:
  assumes "createDFA chars nStates initState nFinStates finStates = Inr d"
  shows "wf_dfa d"
proof -
  let ?n = "int_of_size (length chars)"
  have n: "nat ?n \<le> length chars"
    using int_of_size_le [of "length chars"] by linarith
  from assms have fs: "nFinStates \<le> int (length finStates)"
    by (simp add: createDFA_def split: if_splits)
  from assms have d: "d = \<lparr>characters = ?n, states = nStates, initialState = initState,
      numberOfFinalStates = nFinStates, finalStates = take (nat nFinStates) finStates,
      incompleteCells = nStates * ?n, characterSet = take (nat ?n) chars,
      transitionTable = replicate (nat nStates) (replicate (nat ?n) None)\<rparr>"
    by (simp add: createDFA_def Let_def split: if_splits)
  show ?thesis
    unfolding wf_dfa_def d using n fs by (auto simp: min_def)
qed

lemma table_write_shape:
  assumes "table_write t r c v = Inr t'"
  shows "length t' = length t"
    and "\<forall>row \<in> set t. length row = n \<Longrightarrow> \<forall>row \<in> set t'. length row = n"
proof -
  from assms obtain row where row: "0 \<le> r" "r < int (length t)" "row = t ! nat r"
      "0 \<le> c" "c < int (length row)" and t': "t' = t[nat r := row[nat c := Some v]]"
    by (auto simp: table_write_def array_read_def split: if_splits)
  show "length t' = length t" by (simp add: t')
  assume all: "\<forall>row \<in> set t. length row = n"
  have "row \<in> set t" using row by simp
  with all have "length (row[nat c := Some v]) = n" by simp
  with all show "\<forall>row \<in> set t'. length row = n"
    unfolding t' by (auto dest!: set_update_subset_insert [THEN subsetD])
qed

lemma addTransition_wf:
  assumes "wf_dfa d" and "addTransition d p a q = Inr d'"
  shows "wf_dfa d'"
  using assms table_write_shape [of "transitionTable d" p _ q]
  by (auto simp: addTransition_def wf_dfa_def split: sum.splits if_splits)

lemma add_all_wf: "wf_dfa d \<Longrightarrow> add_all d ts = Inr d' \<Longrightarrow> wf_dfa d'"
proof (induction ts arbitrary: d)
  case Nil
  then show ?case by simp
next
  case (Cons t ts)
  obtain p a q where t: "t = (p, a, q)" by (cases t)
  from Cons.prems(2) obtain d1 where d1: "addTransition d p a q = Inr d1" "add_all d1 ts = Inr d'"
    unfolding t by (auto split: sum.splits)
  from Cons.IH [OF addTransition_wf [OF Cons.prems(1) d1(1)] d1(2)] show ?case .
qed

lemma build_wf: "build chars n q0 nf fs ts = Inr d \<Longrightarrow> wf_dfa d"
  unfolding build_def by (auto split: sum.splits dest: createDFA_wf add_all_wf)

lemma map_result_simps [simp]:
  "map_result f (Inl e) = Inl e" "map_result f (Inr x) = Inr (f x)"
  by (simp_all add: map_result_def)

lemma build_div3: "build ''01'' 3 0 1 [0] div3 = Inr div3_dfa"
  unfolding div3_dfa_def by code_simp

lemma wf_div3_dfa: "wf_dfa div3_dfa"
  using build_div3 by (rule build_wf)

lemma build_div3_incomplete: "build ''01'' 3 0 1 [0] div3_incomplete = Inr div3_incomplete_dfa"
  unfolding div3_incomplete_dfa_def by code_simp

lemma wf_div3_incomplete_dfa: "wf_dfa div3_incomplete_dfa"
  using build_div3_incomplete by (rule build_wf)

subsection \<open>The search of the alphabet\<close>

lemma indexOf_loop_end: "\<not> i < characters d \<Longrightarrow> indexOf_loop d c i = Inr (- 1)"
  by (subst indexOf_loop.simps) simp

lemma indexOf_loop_step:
  "i < characters d \<Longrightarrow> array_read (characterSet d) i = Inr x \<Longrightarrow>
   indexOf_loop d c i = (if c = x then Inr i else indexOf_loop d c (i + 1))"
  by (subst indexOf_loop.simps) simp

lemma drop_notin_step:
  assumes "0 \<le> i" "nat i < length xs" "c \<notin> set (drop (nat i) xs)"
  shows "c \<noteq> xs ! nat i" "c \<notin> set (drop (nat (i + 1)) xs)"
proof -
  have d: "drop (nat i) xs = xs ! nat i # drop (nat (i + 1)) xs"
    using assms(1,2) by (simp add: Cons_nth_drop_Suc nat_add_distrib)
  from assms(3) show "c \<noteq> xs ! nat i" "c \<notin> set (drop (nat (i + 1)) xs)"
    unfolding d by simp_all
qed

lemma indexOf_loop_absent:
  assumes "length (characterSet d) = nat (characters d)" and "0 \<le> i"
    and "c \<notin> set (drop (nat i) (characterSet d))"
  shows "indexOf_loop d c i = Inr (- 1)"
  using assms
proof (induction d c i rule: indexOf_loop.induct)
  case (1 d c i)
  show ?case
  proof (cases "i < characters d")
    case False
    then show ?thesis by (simp add: indexOf_loop_end)
  next
    case True
    with 1(2,3) have inb: "nat i < length (characterSet d)" by linarith
    then have rd: "array_read (characterSet d) i = Inr (characterSet d ! nat i)"
      using 1(3) by (simp add: array_read_def)
    note st = drop_notin_step [OF 1(3) inb 1(4)]
    have "indexOf_loop d c (i + 1) = Inr (- 1)"
      using 1(1) [OF True rd st(1) 1(2) _ st(2)] 1(3) by simp
    then show ?thesis
      using st(1) by (simp add: indexOf_loop_step [OF True rd])
  qed
qed

lemma indexOf_loop_present:
  assumes "length (characterSet d) = nat (characters d)" and "0 \<le> i"
    and "c \<in> set (drop (nat i) (characterSet d))"
  shows "\<exists>k. indexOf_loop d c i = Inr (int k) \<and> nat i \<le> k \<and> k < length (characterSet d) \<and>
           characterSet d ! k = c \<and>
           (\<forall>j. nat i \<le> j \<and> j < k \<longrightarrow> characterSet d ! j \<noteq> c)"
  using assms
proof (induction d c i rule: indexOf_loop.induct)
  case (1 d c i)
  let ?cs = "characterSet d"
  from 1(4) have inb: "nat i < length ?cs"
    by (cases "nat i < length ?cs") auto
  with 1(2,3) have lt: "i < characters d" by linarith
  have rd: "array_read ?cs i = Inr (?cs ! nat i)"
    using inb 1(3) by (simp add: array_read_def)
  have d: "drop (nat i) ?cs = ?cs ! nat i # drop (nat (i + 1)) ?cs"
    using 1(3) inb by (simp add: Cons_nth_drop_Suc nat_add_distrib)
  show ?case
  proof (cases "c = ?cs ! nat i")
    case True
    then have "indexOf_loop d c i = Inr (int (nat i))"
      using 1(3) by (simp add: indexOf_loop_step [OF lt rd])
    moreover have "\<forall>j. nat i \<le> j \<and> j < nat i \<longrightarrow> characterSet d ! j \<noteq> c"
      by auto
    ultimately show ?thesis
      using True inb by (intro exI [of _ "nat i"]) simp
  next
    case False
    with 1(4) d have "c \<in> set (drop (nat (i + 1)) ?cs)" by auto
    from 1(1) [OF lt rd False 1(2) _ this] 1(3)
    obtain k where k: "indexOf_loop d c (i + 1) = Inr (int k)" "nat (i + 1) \<le> k"
        "k < length ?cs" "?cs ! k = c"
        "\<forall>j. nat (i + 1) \<le> j \<and> j < k \<longrightarrow> ?cs ! j \<noteq> c"
      by auto
    have eq: "indexOf_loop d c i = Inr (int k)"
      using False k(1) by (simp add: indexOf_loop_step [OF lt rd])
    have "\<forall>j. nat i \<le> j \<and> j < k \<longrightarrow> ?cs ! j \<noteq> c"
    proof (intro allI impI)
      fix j assume j: "nat i \<le> j \<and> j < k"
      show "?cs ! j \<noteq> c"
      proof (cases "j = nat i")
        case True
        with False show ?thesis by simp
      next
        case False
        with j 1(3) have "nat (i + 1) \<le> j" by linarith
        with k(5) j show ?thesis by blast
      qed
    qed
    moreover have "nat i \<le> k" using k(2) 1(3) by linarith
    ultimately show ?thesis using eq k(3,4) by blast
  qed
qed

lemma indexOf_absent:
  "wf_dfa d \<Longrightarrow> c \<notin> set (characterSet d) \<Longrightarrow> indexOf d c = Inr (- 1)"
  unfolding indexOf_def by (rule indexOf_loop_absent) (simp_all add: wf_dfa_def)

lemma indexOf_present:
  assumes "wf_dfa d" and "c \<in> set (characterSet d)"
  shows "\<exists>k < length (characterSet d). indexOf d c = Inr (int k) \<and> characterSet d ! k = c \<and>
           (\<forall>j < k. characterSet d ! j \<noteq> c)"
  using indexOf_loop_present [of d 0 c] assms
  unfolding indexOf_def wf_dfa_def by auto

text \<open>
  C9. For every automaton and every character \<open>c\<close>, \<open>indexOf\<close> searches the alphabet
  from its first position: it returns the position of the first element equal to \<open>c\<close>
  when \<open>c\<close> occurs in the alphabet, and \<open>-1\<close> when it does not. The function
  stores nothing through its pointer argument, which is why its model returns a value and
  no automaton.
\<close>

theorem indexOf_linear_search:
  assumes "wf_dfa d"
  shows "(c \<notin> set (characterSet d) \<longrightarrow> indexOf d c = Inr (- 1)) \<and>
         (c \<in> set (characterSet d) \<longrightarrow>
            (\<exists>k < length (characterSet d). indexOf d c = Inr (int k) \<and>
               characterSet d ! k = c \<and> (\<forall>j < k. characterSet d ! j \<noteq> c)))"
  using indexOf_absent [OF assms] indexOf_present [OF assms] by blast

theorem indexOf_linear_search_witness:
  "wf_dfa div3_dfa \<and>
   CHR ''2'' \<notin> set (characterSet div3_dfa) \<and> indexOf div3_dfa (CHR ''2'') = Inr (- 1) \<and>
   CHR ''1'' \<in> set (characterSet div3_dfa) \<and> indexOf div3_dfa (CHR ''1'') = Inr 1"
proof -
  have a: "CHR ''2'' \<notin> set (characterSet div3_dfa)" by (simp add: div3_dfa_def)
  have b: "CHR ''1'' \<in> set (characterSet div3_dfa)" by (simp add: div3_dfa_def)
  from indexOf_linear_search [OF wf_div3_dfa, of "CHR ''1''"] b
  obtain k where k: "k < length (characterSet div3_dfa)"
      "indexOf div3_dfa (CHR ''1'') = Inr (int k)" "characterSet div3_dfa ! k = CHR ''1''"
    by blast
  from k(1) have "k = 0 \<or> k = 1" by (auto simp: div3_dfa_def)
  with k(3) have "k = 1" by (auto simp: div3_dfa_def)
  with k(2) have c: "indexOf div3_dfa (CHR ''1'') = Inr 1" by simp
  from indexOf_linear_search [OF wf_div3_dfa, of "CHR ''2''"] a b c wf_div3_dfa
  show ?thesis by simp
qed

subsection \<open>Registering a transition\<close>

text \<open>
  C7. For every automaton and every character that is not in its alphabet,
  \<open>addTransition\<close> with that character returns normally and leaves the automaton as it
  was: the same table, the same counter, the same other fields.
\<close>

theorem addTransition_absent_symbol:
  assumes "wf_dfa d" and "c \<notin> set (characterSet d)"
  shows "addTransition d p c q = Inr d"
  using indexOf_absent [OF assms] by (simp add: addTransition_def)

theorem addTransition_absent_symbol_witness:
  "wf_dfa div3_dfa \<and> CHR ''2'' \<notin> set (characterSet div3_dfa) \<and>
   addTransition div3_dfa 7 (CHR ''2'') 5 = Inr div3_dfa"
proof -
  have a: "CHR ''2'' \<notin> set (characterSet div3_dfa)" by (simp add: div3_dfa_def)
  from addTransition_absent_symbol [OF wf_div3_dfa a, of 7 5] a wf_div3_dfa
  show ?thesis by simp
qed

subsection \<open>The loop over the final states\<close>

lemma final_loop_end: "\<not> i < numberOfFinalStates d \<Longrightarrow> final_loop d state i = Inr 0"
  by (subst final_loop.simps) simp

lemma final_loop_step:
  "i < numberOfFinalStates d \<Longrightarrow> array_read (finalStates d) i = Inr f \<Longrightarrow>
   final_loop d state i = (if state = f then Inr 1 else final_loop d state (i + 1))"
  by (subst final_loop.simps) simp

lemma final_loop_member:
  assumes "length (finalStates d) = nat (numberOfFinalStates d)" and "0 \<le> i"
  shows "final_loop d state i =
           Inr (if state \<in> set (drop (nat i) (finalStates d)) then 1 else 0)"
  using assms
proof (induction d state i rule: final_loop.induct)
  case (1 d state i)
  let ?fs = "finalStates d"
  show ?case
  proof (cases "i < numberOfFinalStates d")
    case False
    with 1(2,3) have "drop (nat i) ?fs = []" by simp
    with False show ?thesis by (simp add: final_loop_end)
  next
    case True
    with 1(2,3) have inb: "nat i < length ?fs" by linarith
    have rd: "array_read ?fs i = Inr (?fs ! nat i)"
      using inb 1(3) by (simp add: array_read_def)
    have d: "drop (nat i) ?fs = ?fs ! nat i # drop (nat (i + 1)) ?fs"
      using 1(3) inb by (simp add: Cons_nth_drop_Suc nat_add_distrib)
    show ?thesis
    proof (cases "state = ?fs ! nat i")
      case eq: True
      then show ?thesis
        unfolding d by (simp add: final_loop_step [OF True rd])
    next
      case False
      from 1(1) [OF True rd False 1(2)] 1(3)
      have "final_loop d state (i + 1) =
              Inr (if state \<in> set (drop (nat (i + 1)) ?fs) then 1 else 0)" by simp
      with False show ?thesis
        unfolding d by (simp add: final_loop_step [OF True rd])
    qed
  qed
qed

lemma final_loop_accepting:
  "wf_dfa d \<Longrightarrow>
   final_loop d state 0 =
     Inr (outcome_code (if state \<in> set (finalStates d) then Accepted else Rejected))"
  using final_loop_member [of d 0 state] by (simp add: wf_dfa_def)

subsection \<open>The loop over the input\<close>

lemma scan_loop_end: "\<not> i < l \<Longrightarrow> scan_loop d inp l i state = Inr (Finished state)"
  by (subst scan_loop.simps) simp

lemma scan_loop_invalid:
  "i < l \<Longrightarrow> array_read inp i = Inr ch \<Longrightarrow> indexOf d ch = Inr index \<Longrightarrow> index < 0 \<Longrightarrow>
   scan_loop d inp l i state = Inr (Returned ERROR_INVALID_CHARACTER_IN_INPUT)"
  by (subst scan_loop.simps) simp

lemma scan_loop_step:
  "i < l \<Longrightarrow> array_read inp i = Inr ch \<Longrightarrow> indexOf d ch = Inr index \<Longrightarrow> \<not> index < 0 \<Longrightarrow>
   scan_loop d inp l i state =
     (case table_read (transitionTable d) state index of
        Inl e \<Rightarrow> Inl e
      | Inr state' \<Rightarrow> scan_loop d inp l (i + 1) state')"
  by (subst scan_loop.simps) simp

text \<open>
  The program's search and the specification's symbol index agree, and so do the
  program's table access and the specification's table.
\<close>

lemma result_of_simps [simp]:
  "result_of (Inl e) = None" "result_of (Inr x) = Some x"
  by (simp_all add: result_of_def)

lemma result_of_Some: "result_of r = Some x \<longleftrightarrow> r = Inr x"
  by (cases r) simp_all

lemma SymbolIndex_absent: "SymbolIndex xs c = None \<longleftrightarrow> c \<notin> set xs"
  by (induction xs) auto

lemma SymbolIndex_less: "SymbolIndex xs c = Some k \<Longrightarrow> k < length xs"
  by (induction xs arbitrary: k) (auto split: if_splits)

lemma SymbolIndex_first:
  "k < length xs \<Longrightarrow> xs ! k = c \<Longrightarrow> \<forall>j < k. xs ! j \<noteq> c \<Longrightarrow> SymbolIndex xs c = Some k"
proof (induction xs arbitrary: k)
  case Nil
  then show ?case by simp
next
  case (Cons a xs)
  show ?case
  proof (cases k)
    case 0
    with Cons.prems(2) show ?thesis by simp
  next
    case (Suc m)
    from Cons.prems(3) Suc have "(a # xs) ! 0 \<noteq> c" by blast
    then have a: "a \<noteq> c" by simp
    have "\<forall>j < m. xs ! j \<noteq> c"
    proof (intro allI impI)
      fix j assume "j < m"
      then have "Suc j < k" using Suc by simp
      with Cons.prems(3) have "(a # xs) ! Suc j \<noteq> c" by blast
      then show "xs ! j \<noteq> c" by simp
    qed
    with Cons.IH [of m] Cons.prems(1,2) Suc have "SymbolIndex xs c = Some m" by simp
    with a Suc show ?thesis by simp
  qed
qed

lemma indexOf_SymbolIndex:
  assumes "wf_dfa d"
  shows "indexOf d c =
           Inr (case SymbolIndex (characterSet d) c of None \<Rightarrow> - 1 | Some k \<Rightarrow> int k)"
proof (cases "c \<in> set (characterSet d)")
  case False
  with indexOf_absent [OF assms False] show ?thesis
    by (simp add: SymbolIndex_absent [THEN iffD2])
next
  case True
  from indexOf_present [OF assms True] obtain k where
    k: "k < length (characterSet d)" "indexOf d c = Inr (int k)" "characterSet d ! k = c"
       "\<forall>j < k. characterSet d ! j \<noteq> c" by blast
  from SymbolIndex_first [OF k(1,3,4)] k(2) show ?thesis by simp
qed

lemma table_read_spec:
  "result_of (table_read (transitionTable d) q (int k)) = spec_table d q k"
proof (cases "0 \<le> q \<and> nat q < length (transitionTable d)")
  case False
  then have "array_read (transitionTable d) q = Inl OutOfBounds"
    by (auto simp: array_read_def)
  with False show ?thesis by (auto simp: table_read_def spec_table_def)
next
  case True
  then have row: "array_read (transitionTable d) q = Inr (transitionTable d ! nat q)"
    by (auto simp: array_read_def)
  show ?thesis
  proof (cases "k < length (transitionTable d ! nat q)")
    case False
    with row True show ?thesis by (simp add: table_read_def spec_table_def array_read_def)
  next
    case k: True
    with row True show ?thesis
      by (cases "transitionTable d ! nat q ! k")
         (simp_all add: table_read_def spec_table_def array_read_def)
  qed
qed

text \<open>
  The invariant of the loop: from index \<open>i\<close> and state \<open>state\<close> it does what the
  recursion over the symbols does on the rest of the input, and it faults exactly where
  the specification's table has no target.
\<close>

lemma scan_loop_fold:
  assumes "wf_dfa d" and "l = int (length inp)" and "0 \<le> i" and "i \<le> l"
  shows "result_of (scan_loop d inp l i state) =
           scan_of (spec_fold d state (drop (nat i) inp))"
  using assms
proof (induction d inp l i state rule: scan_loop.induct)
  case (1 d inp l i state)
  show ?case
  proof (cases "i < l")
    case False
    with 1(3,5) have "drop (nat i) inp = []" by simp
    with False show ?thesis by (simp add: scan_loop_end scan_of_def)
  next
    case True
    with 1(3,4) have inb: "nat i < length inp" by linarith
    let ?ch = "inp ! nat i"
    have rd: "array_read inp i = Inr ?ch"
      using inb 1(4) by (simp add: array_read_def)
    have dr: "drop (nat i) inp = ?ch # drop (nat (i + 1)) inp"
      using 1(4) inb by (simp add: Cons_nth_drop_Suc nat_add_distrib)
    note ix = indexOf_SymbolIndex [OF 1(2), of ?ch]
    show ?thesis
    proof (cases "SymbolIndex (characterSet d) ?ch")
      case None
      with ix have ix': "indexOf d ?ch = Inr (- 1)" by simp
      have "scan_loop d inp l i state = Inr (Returned ERROR_INVALID_CHARACTER_IN_INPUT)"
        by (rule scan_loop_invalid [OF True rd ix']) simp
      with None show ?thesis unfolding dr by (simp add: scan_of_def)
    next
      case (Some k)
      with ix have ix': "indexOf d ?ch = Inr (int k)" by simp
      have nn: "\<not> int k < 0" by simp
      note st = scan_loop_step [OF True rd ix' nn, of state]
      note tr = table_read_spec [of d state k]
      show ?thesis
      proof (cases "table_read (transitionTable d) state (int k)")
        case (Inl e)
        with tr have "spec_table d state k = None" by simp
        with st Some Inl show ?thesis unfolding dr by (simp add: scan_of_def)
      next
        case (Inr state')
        with tr have sp: "spec_table d state k = Some state'" by simp
        have "i + 1 \<le> l" using True by simp
        from 1(1) [OF True rd ix' nn Inr 1(2) 1(3) _ this] 1(4)
        have "result_of (scan_loop d inp l (i + 1) state') =
                scan_of (spec_fold d state' (drop (nat (i + 1)) inp))" by simp
        with st Some Inr sp show ?thesis unfolding dr by simp
      qed
    qed
  qed
qed

lemma checkString_incomplete:
  "incompleteCells d \<noteq> 0 \<Longrightarrow> checkString d inp = Inr ERROR_INCOMPLETE_TABLE"
  by (simp add: checkString_def)

text \<open>
  For an input whose length the \<open>int\<close> of line 124 holds, and a counter of zero,
  \<open>checkString\<close> returns exactly where the specification's evaluation has an outcome,
  and returns the code of that outcome.
\<close>

lemma checkString_eq_spec:
  assumes "wf_dfa d" and "incompleteCells d = 0" and "int (length inp) \<le> INT_MAX"
  shows "result_of (checkString d inp) = map_option outcome_code (spec_checkString d inp)"
proof -
  have l: "int_of_size (length inp) = int (length inp)"
    using assms(3) by (rule int_of_size_small)
  have sc: "result_of (scan_loop d inp (int (length inp)) 0 (initialState d)) =
              scan_of (spec_fold d (initialState d) inp)"
    using scan_loop_fold [OF assms(1) refl, of 0 inp "initialState d"] by simp
  note fl = final_loop_accepting [OF assms(1)]
  show ?thesis
  proof (cases "scan_loop d inp (int (length inp)) 0 (initialState d)")
    case (Inl e)
    with sc have "spec_fold d (initialState d) inp = NoEntry"
      by (cases "spec_fold d (initialState d) inp") (simp_all add: scan_of_def)
    with Inl l assms(2) show ?thesis by (simp add: checkString_def spec_checkString_def)
  next
    case (Inr r)
    show ?thesis
    proof (cases r)
      case (Returned code)
      with sc Inr have "spec_fold d (initialState d) inp = BadSymbol \<and>
          code = ERROR_INVALID_CHARACTER_IN_INPUT"
        by (cases "spec_fold d (initialState d) inp") (simp_all add: scan_of_def)
      with Inr Returned l assms(2) show ?thesis
        by (simp add: checkString_def spec_checkString_def)
    next
      case (Finished q)
      with sc Inr have "spec_fold d (initialState d) inp = EndsIn q"
        by (cases "spec_fold d (initialState d) inp") (simp_all add: scan_of_def)
      with Inr Finished l assms(2) fl [of q] show ?thesis
        by (simp add: checkString_def spec_checkString_def)
    qed
  qed
qed

text \<open>
  C1. The specification has \<open>checkString\<close>, on an automaton whose counter is zero,
  take every symbol of the input from left to right and return \<open>InvalidSymbol\<close> at the
  first one that is absent from the alphabet. The code does so for inputs of up to
  \<open>INT_MAX\<close> characters (lemma \<open>checkString_eq_spec\<close>), and not beyond: line 124
  stores the length in an \<open>int\<close>. On the automaton of the scenario and an input of
  \<open>2147483648\<close> characters \<open>'2'\<close>, none of them in the alphabet, \<open>l\<close> is
  \<open>-2147483648\<close>, the loop of line 125 runs no iteration, and the call returns
  \<open>Accepted\<close>, because the initial state is accepting.
\<close>

theorem checkString_skips_long_input:
  "length (replicate 2147483648 (CHR ''2'')) = 2147483648 \<and>
   int_of_size 2147483648 = - 2147483648 \<and>
   CHR ''2'' \<notin> set ''01'' \<and>
   spec_checkString div3_dfa (replicate 2147483648 (CHR ''2'')) = Some InvalidSymbol \<and>
   check_built ''01'' 3 0 1 [0] div3 (replicate 2147483648 (CHR ''2'')) =
     Inr (outcome_code Accepted)"
proof -
  let ?inp = "replicate 2147483648 (CHR ''2'')"
  have l: "int_of_size 2147483648 = - 2147483648"
    by (simp add: int_of_size_def)
  have "(2147483648 :: nat) = Suc 2147483647" by simp
  then have "?inp = CHR ''2'' # replicate 2147483647 (CHR ''2'')"
    by (simp only: replicate_Suc)
  then have sp: "spec_checkString div3_dfa ?inp = Some InvalidSymbol"
    by (simp add: spec_checkString_def div3_dfa_def)
  have "scan_loop div3_dfa ?inp (- 2147483648) 0 (initialState div3_dfa) =
          Inr (Finished (initialState div3_dfa))"
    by (rule scan_loop_end) simp
  moreover have "final_loop div3_dfa (initialState div3_dfa) 0 = Inr (outcome_code Accepted)"
    using final_loop_accepting [OF wf_div3_dfa, of "initialState div3_dfa"]
    by (simp add: div3_dfa_def)
  moreover have "incompleteCells div3_dfa = 0" by (simp add: div3_dfa_def)
  ultimately have "checkString div3_dfa ?inp = Inr (outcome_code Accepted)"
    using l by (simp add: checkString_def)
  then have "check_built ''01'' 3 0 1 [0] div3 ?inp = Inr (outcome_code Accepted)"
    by (simp add: check_built_def build_div3)
  with l sp show ?thesis by simp
qed

text \<open>
  C6. For every automaton whose counter of unset cells is zero, \<open>checkString\<close> on the
  empty string returns \<open>Accepted\<close> when the initial state is one of the accepting
  states, and \<open>Rejected\<close> when it is not.
\<close>

theorem checkString_empty:
  assumes "wf_dfa d" and "incompleteCells d = 0"
  shows "checkString d [] =
           Inr (outcome_code (if initialState d \<in> set (finalStates d) then Accepted else Rejected))"
proof -
  have "int_of_size (length ([] :: string)) = 0" by (simp add: int_of_size_def)
  moreover have "scan_loop d [] 0 0 (initialState d) = Inr (Finished (initialState d))"
    by (rule scan_loop_end) simp
  ultimately show ?thesis
    using assms(2) final_loop_accepting [OF assms(1), of "initialState d"]
    by (simp add: checkString_def)
qed

theorem checkString_empty_witness:
  "wf_dfa div3_dfa \<and> incompleteCells div3_dfa = 0 \<and>
   initialState div3_dfa \<in> set (finalStates div3_dfa) \<and>
   checkString div3_dfa [] = Inr (outcome_code Accepted)"
proof -
  have a: "incompleteCells div3_dfa = 0" by (simp add: div3_dfa_def)
  have b: "initialState div3_dfa \<in> set (finalStates div3_dfa)" by (simp add: div3_dfa_def)
  from checkString_empty [OF wf_div3_dfa a] a b wf_div3_dfa
  show ?thesis by simp
qed

subsection \<open>The scenario of the specification\<close>

text \<open>
  C5. The automaton with alphabet "01", three states, initial state 0, accepting states
  \<open>{0}\<close> and the six transitions of \<open>div3\<close>, each registered once, accepts "110",
  rejects "101" and answers \<open>InvalidSymbol\<close> on "102"; built without the registration
  of \<open>(2, '1')\<close> (\<open>div3_incomplete\<close>), it answers \<open>IncompleteTable\<close> on "0".
\<close>

theorem div3_scenario:
  "check_built ''01'' 3 0 1 [0] div3 ''110'' = Inr (outcome_code Accepted) \<and>
   check_built ''01'' 3 0 1 [0] div3 ''101'' = Inr (outcome_code Rejected) \<and>
   check_built ''01'' 3 0 1 [0] div3 ''102'' = Inr (outcome_code InvalidSymbol) \<and>
   check_built ''01'' 3 0 1 [0] div3_incomplete ''0'' = Inr (outcome_code IncompleteTable)"
  by code_simp

subsection \<open>A symbol outside the alphabet\<close>

lemma spec_fold_append:
  "spec_fold d s (xs @ ys) =
     (case spec_fold d s xs of
        NoEntry \<Rightarrow> NoEntry
      | BadSymbol \<Rightarrow> BadSymbol
      | EndsIn s' \<Rightarrow> spec_fold d s' ys)"
  by (induction xs arbitrary: s) (auto split: option.splits)

lemma spec_fold_invalid:
  assumes "spec_fold d s pre \<noteq> NoEntry" and "c \<notin> set (characterSet d)"
  shows "spec_fold d s (pre @ c # rest) = BadSymbol"
  using assms
  by (cases "spec_fold d s pre")
     (simp_all add: spec_fold_append SymbolIndex_absent [THEN iffD2])

text \<open>
  C3, as the specification states it, fails: on the automaton of the scenario that lacks
  the registration of \<open>(2, '1')\<close>, the input "102" contains \<open>'2'\<close>, which is not in
  the alphabet, and \<open>checkString\<close> returns \<open>IncompleteTable\<close>, not \<open>InvalidSymbol\<close>:
  line 118 tests the counter before the input is looked at.
\<close>

theorem invalid_symbol_incomplete_counterexample:
  "CHR ''2'' \<in> set ''102'' \<and> CHR ''2'' \<notin> set ''01'' \<and>
   check_built ''01'' 3 0 1 [0] div3_incomplete ''102'' = Inr (outcome_code IncompleteTable) \<and>
   check_built ''01'' 3 0 1 [0] div3_incomplete ''102'' \<noteq> Inr (outcome_code InvalidSymbol)"
  by code_simp

text \<open>
  C3, amended. Let an input contain a character \<open>c\<close> that is absent from the alphabet,
  after symbols \<open>pre\<close> that are all in it, and let the evaluation of \<open>pre\<close> alone be
  defined (every table cell it reads is inside the table and was registered). Then
  \<open>checkString\<close> returns \<open>InvalidSymbol\<close> when the counter of unset cells is zero, and
  \<open>IncompleteTable\<close> when it is not; and it does so whatever follows \<open>c\<close>: the
  characters after the first absent one are not processed. The input is one whose length
  the \<open>int\<close> of line 124 holds.
\<close>

theorem checkString_invalid_symbol:
  assumes "wf_dfa d" and "set pre \<subseteq> set (characterSet d)" and "c \<notin> set (characterSet d)"
    and "int (length (pre @ c # rest)) \<le> INT_MAX" and "checkString d pre = Inr r"
  shows "checkString d (pre @ c # rest) =
           Inr (outcome_code (if incompleteCells d = 0 then InvalidSymbol else IncompleteTable))"
proof (cases "incompleteCells d = 0")
  case False
  then show ?thesis by (simp add: checkString_incomplete)
next
  case True
  have "int (length pre) \<le> INT_MAX" using assms(4) by simp
  from checkString_eq_spec [OF assms(1) True this] assms(5)
  have "spec_fold d (initialState d) pre \<noteq> NoEntry"
    by (auto simp: spec_checkString_def)
  from spec_fold_invalid [OF this assms(3)]
  have "spec_checkString d (pre @ c # rest) = Some InvalidSymbol"
    by (simp add: spec_checkString_def)
  with checkString_eq_spec [OF assms(1) True assms(4)] True show ?thesis
    by (simp add: result_of_Some)
qed

theorem checkString_invalid_symbol_witness:
  "wf_dfa div3_dfa \<and> set ''10'' \<subseteq> set (characterSet div3_dfa) \<and>
   CHR ''2'' \<notin> set (characterSet div3_dfa) \<and>
   int (length (''10'' @ CHR ''2'' # ''01'')) \<le> INT_MAX \<and>
   checkString div3_dfa ''10'' = Inr 0 \<and> incompleteCells div3_dfa = 0 \<and>
   checkString div3_dfa (''10'' @ CHR ''2'' # ''01'') = Inr (outcome_code InvalidSymbol) \<and>
   wf_dfa div3_incomplete_dfa \<and> checkString div3_incomplete_dfa ''10'' = Inr (- 22) \<and>
   incompleteCells div3_incomplete_dfa = 1 \<and>
   checkString div3_incomplete_dfa (''10'' @ CHR ''2'' # ''01'') =
     Inr (outcome_code IncompleteTable)"
proof -
  have a: "set ''10'' \<subseteq> set (characterSet div3_dfa)" by (simp add: div3_dfa_def)
  have b: "CHR ''2'' \<notin> set (characterSet div3_dfa)" by (simp add: div3_dfa_def)
  have c: "int (length (''10'' @ CHR ''2'' # ''01'')) \<le> INT_MAX" by (simp add: INT_MAX_def)
  have e: "checkString div3_dfa ''10'' = Inr 0" by code_simp
  have f: "incompleteCells div3_dfa = 0" by (simp add: div3_dfa_def)
  have a': "set ''10'' \<subseteq> set (characterSet div3_incomplete_dfa)"
    by (simp add: div3_incomplete_dfa_def)
  have b': "CHR ''2'' \<notin> set (characterSet div3_incomplete_dfa)"
    by (simp add: div3_incomplete_dfa_def)
  have e': "checkString div3_incomplete_dfa ''10'' = Inr (- 22)" by code_simp
  have f': "incompleteCells div3_incomplete_dfa = 1" by (simp add: div3_incomplete_dfa_def)
  from checkString_invalid_symbol [OF wf_div3_dfa a b c e]
    checkString_invalid_symbol [OF wf_div3_incomplete_dfa a' b' c e']
    a b c e f e' f' wf_div3_dfa wf_div3_incomplete_dfa
  show ?thesis by simp
qed

subsection \<open>Evaluation changes nothing\<close>

lemma indexOf_exec_loop_eq:
  "indexOf_exec_loop h c i = map_result (Pair h) (indexOf_loop h c i)"
proof (induction h c i rule: indexOf_loop.induct)
  case (1 d c i)
  show ?case
  proof (cases "i < characters d")
    case False
    then show ?thesis
      by (subst indexOf_exec_loop.simps, subst indexOf_loop.simps) simp
  next
    case True
    show ?thesis
    proof (cases "array_read (characterSet d) i")
      case (Inl e)
      with True show ?thesis
        by (subst indexOf_exec_loop.simps, subst indexOf_loop.simps) simp
    next
      case (Inr x)
      with True 1 [OF True Inr] show ?thesis
        by (subst indexOf_exec_loop.simps, subst indexOf_loop.simps) simp
    qed
  qed
qed

lemma indexOf_exec_eq: "indexOf_exec h c = map_result (Pair h) (indexOf h c)"
  by (simp add: indexOf_exec_def indexOf_def indexOf_exec_loop_eq)

lemma scan_exec_eq:
  "map_result
     (\<lambda>(h', v', r).
        (h', case r of Some code \<Rightarrow> Returned code | None \<Rightarrow> Finished (loc_state v')))
     (scan_exec inp (h, v)) =
   map_result (Pair h) (scan_loop h inp (loc_l v) (loc_i v) (loc_state v))"
proof (induction inp "(h, v)" arbitrary: v rule: scan_exec.induct)
  case (1 inp v)
  show ?case
  proof (cases "loc_i v < loc_l v")
    case False
    then show ?thesis
      by (subst scan_exec.simps, subst scan_loop.simps) simp
  next
    case True
    show ?thesis
    proof (cases "array_read inp (loc_i v)")
      case (Inl e)
      with True show ?thesis
        by (subst scan_exec.simps, subst scan_loop.simps) simp
    next
      case rd: (Inr ch)
      show ?thesis
      proof (cases "indexOf h ch")
        case (Inl e)
        with True rd show ?thesis
          by (subst scan_exec.simps, subst scan_loop.simps) (simp add: indexOf_exec_eq)
      next
        case ix: (Inr r)
        then have ixe: "indexOf_exec h ch = Inr (h, r)" by (simp add: indexOf_exec_eq)
        show ?thesis
        proof (cases "r < 0")
          case neg: True
          with True rd ix ixe show ?thesis
            by (subst scan_exec.simps, subst scan_loop.simps) simp
        next
          case nn: False
          show ?thesis
          proof (cases "table_read (transitionTable h) (loc_state v) r")
            case (Inl e)
            with True rd ix ixe nn show ?thesis
              by (subst scan_exec.simps, subst scan_loop.simps) simp
          next
            case tr: (Inr q)
            from 1 [OF True rd ixe refl nn tr]
            have "map_result
                    (\<lambda>(h', v', r).
                       (h', case r of Some code \<Rightarrow> Returned code
                            | None \<Rightarrow> Finished (loc_state v')))
                    (scan_exec inp
                       (h, v\<lparr>loc_index := r, loc_state := q, loc_i := loc_i v + 1\<rparr>)) =
                  map_result (Pair h) (scan_loop h inp (loc_l v) (loc_i v + 1) q)"
              by simp
            with True rd ix ixe nn tr show ?thesis
              by (subst scan_exec.simps, subst scan_loop.simps) simp
          qed
        qed
      qed
    qed
  qed
qed

lemma final_exec_eq:
  "loc_index v = 0 \<Longrightarrow>
   map_result (\<lambda>(h', v'). (h', loc_index v')) (final_exec (h, v)) =
   map_result (Pair h) (final_loop h (loc_state v) (loc_i v))"
proof (induction "(h, v)" arbitrary: v rule: final_exec.induct)
  case (1 v)
  show ?case
  proof (cases "loc_i v < numberOfFinalStates h")
    case False
    with 1(2) show ?thesis
      by (subst final_exec.simps, subst final_loop.simps) simp
  next
    case True
    show ?thesis
    proof (cases "array_read (finalStates h) (loc_i v)")
      case (Inl e)
      with True show ?thesis
        by (subst final_exec.simps, subst final_loop.simps) simp
    next
      case rd: (Inr f)
      show ?thesis
      proof (cases "loc_state v = f")
        case eq: True
        with True rd show ?thesis
          by (subst final_exec.simps, subst final_loop.simps) simp
      next
        case ne: False
        from 1(1) [OF True rd ne] 1(2)
        have "map_result (\<lambda>(h', v'). (h', loc_index v'))
                (final_exec (h, v\<lparr>loc_i := loc_i v + 1\<rparr>)) =
              map_result (Pair h) (final_loop h (loc_state v) (loc_i v + 1))"
          by simp
        with True rd ne show ?thesis
          by (subst final_exec.simps, subst final_loop.simps) simp
      qed
    qed
  qed
qed

text \<open>
  The run of \<open>checkString\<close> on the machine state returns where the function of the
  automaton and the input returns, with that function's value and with the struct it was
  given, whatever the locals held at entry.
\<close>

lemma checkString_exec_eq:
  "checkString_exec h v0 inp = map_result (Pair h) (checkString h inp)"
proof (cases "incompleteCells h = 0")
  case False
  then show ?thesis by (simp add: checkString_exec_def checkString_def)
next
  case True
  let ?v = "v0\<lparr>loc_state := initialState h, loc_l := int_of_size (length inp), loc_i := 0\<rparr>"
  note sc = scan_exec_eq [of inp h ?v]
  show ?thesis
  proof (cases "scan_exec inp (h, ?v)")
    case (Inl e)
    with sc have "scan_loop h inp (int_of_size (length inp)) 0 (initialState h) = Inl e"
      by (cases "scan_loop h inp (int_of_size (length inp)) 0 (initialState h)") simp_all
    with Inl True show ?thesis by (simp add: checkString_exec_def checkString_def)
  next
    case (Inr x)
    obtain h' v' r where x: "x = (h', v', r)" by (cases x)
    show ?thesis
    proof (cases r)
      case (Some code)
      with sc Inr x
      have "scan_loop h inp (int_of_size (length inp)) 0 (initialState h) =
              Inr (Returned code) \<and> h' = h"
        by (cases "scan_loop h inp (int_of_size (length inp)) 0 (initialState h)") auto
      with Inr x Some True show ?thesis by (simp add: checkString_exec_def checkString_def)
    next
      case None
      with sc Inr x
      have fin: "scan_loop h inp (int_of_size (length inp)) 0 (initialState h) =
              Inr (Finished (loc_state v')) \<and> h' = h"
        by (cases "scan_loop h inp (int_of_size (length inp)) 0 (initialState h)") auto
      let ?w = "v'\<lparr>loc_index := 0, loc_i := 0\<rparr>"
      have fe: "map_result (\<lambda>(h', v'). (h', loc_index v')) (final_exec (h, ?w)) =
                  map_result (Pair h) (final_loop h (loc_state v') 0)"
        using final_exec_eq [of ?w h] by simp
      show ?thesis
      proof (cases "final_exec (h, ?w)")
        case (Inl e)
        with fe have "final_loop h (loc_state v') 0 = Inl e"
          by (cases "final_loop h (loc_state v') 0") simp_all
        with Inl Inr x None True fin show ?thesis
          by (simp add: checkString_exec_def checkString_def)
      next
        case fr: (Inr y)
        obtain h'' w' where y: "y = (h'', w')" by (cases y)
        with fe fr have "final_loop h (loc_state v') 0 = Inr (loc_index w') \<and> h'' = h"
          by (cases "final_loop h (loc_state v') 0") auto
        with fr y Inr x None True fin show ?thesis
          by (simp add: checkString_exec_def checkString_def)
      qed
    qed
  qed
qed

text \<open>
  C8. A call of \<open>checkString\<close> changes no field of the automaton: run on the machine
  state, lines 116 to 145 return the struct they were given, and a result that is a
  function of the automaton and the input alone. So a sequence of calls returns normally
  with the struct \<open>d'\<close> and the results \<open>rs\<close> exactly when \<open>d'\<close> is the struct the
  sequence started on and each result is what its call returns when made alone on that
  struct: two calls with the same input give the same result, and calls with other
  inputs in between do not change a result.
\<close>

theorem checkString_pure:
  "checkString_exec d v0 inp = map_result (Pair d) (checkString d inp) \<and>
   (check_all d calls = Inr (d', rs) \<longleftrightarrow>
      d' = d \<and> map (\<lambda>(v, inp). checkString d inp) calls = map Inr rs)"
proof
  show "checkString_exec d v0 inp = map_result (Pair d) (checkString d inp)"
    by (rule checkString_exec_eq)
  show "check_all d calls = Inr (d', rs) \<longleftrightarrow>
          d' = d \<and> map (\<lambda>(v, inp). checkString d inp) calls = map Inr rs"
  proof (induction calls arbitrary: rs)
    case Nil
    show ?case by auto
  next
    case (Cons call calls)
    obtain v inp where call: "call = (v, inp)" by (cases call)
    show ?case
    proof (cases "checkString d inp")
      case (Inl e)
      then show ?thesis
        unfolding call by (cases rs) (auto simp: checkString_exec_eq)
    next
      case (Inr r)
      show ?thesis
      proof (cases rs)
        case Nil
        with Inr show ?thesis
          unfolding call by (auto simp: checkString_exec_eq split: sum.splits)
      next
        case (Cons r' rs')
        with Inr Cons.IH [of rs'] show ?thesis
          unfolding call by (auto simp: checkString_exec_eq split: sum.splits)
      qed
    qed
  qed
qed

subsection \<open>What the counter counts\<close>

text \<open>
  With the symbol in the alphabet and the row in the table, \<open>addTransition\<close> stores the
  target in the cell and takes one from the counter, whether or not the cell was stored
  before.
\<close>

lemma addTransition_present:
  assumes "wf_dfa d" and "a \<in> set (characterSet d)" and "0 \<le> p" and "p < states d"
    and "INT_MIN < incompleteCells d"
  shows "\<exists>k < length (characterSet d). indexOf d a = Inr (int k) \<and>
           addTransition d p a q =
             Inr (d\<lparr>transitionTable :=
                        (transitionTable d)[nat p := (transitionTable d ! nat p)[k := Some q]],
                     incompleteCells := incompleteCells d - 1\<rparr>)"
proof -
  let ?t = "transitionTable d"
  from indexOf_present [OF assms(1,2)] obtain k where
    k: "k < length (characterSet d)" "indexOf d a = Inr (int k)" by blast
  from assms(1,3,4) have p: "nat p < length ?t" by (simp add: wf_dfa_def)
  then have "?t ! nat p \<in> set ?t" by simp
  with assms(1) k(1) have kk: "k < length (?t ! nat p)" by (simp add: wf_dfa_def)
  have "table_write ?t p (int k) q = Inr (?t[nat p := (?t ! nat p)[k := Some q]])"
    using p kk assms(3) by (simp add: table_write_def array_read_def)
  with k assms(5) show ?thesis by (auto simp: addTransition_def)
qed

lemma addTransition_frame:
  "addTransition d p a q = Inr d' \<Longrightarrow>
   characterSet d' = characterSet d \<and> characters d' = characters d \<and>
   states d' = states d \<and> initialState d' = initialState d \<and>
   finalStates d' = finalStates d \<and> numberOfFinalStates d' = numberOfFinalStates d"
  by (auto simp: addTransition_def split: sum.splits if_splits)

lemma addTransition_counter:
  assumes "wf_dfa d" and "addTransition d p a q = Inr d'"
  shows "incompleteCells d' =
           incompleteCells d - (if a \<in> set (characterSet d) then 1 else 0)"
proof (cases "a \<in> set (characterSet d)")
  case False
  from indexOf_absent [OF assms(1) False] assms(2) show ?thesis
    using False by (simp add: addTransition_def)
next
  case True
  from indexOf_present [OF assms(1) True] obtain k where "indexOf d a = Inr (int k)" by blast
  with assms(2) True show ?thesis
    by (auto simp: addTransition_def split: sum.splits if_splits)
qed

text \<open>
  After a sequence of calls the counter is its first value less the number of calls
  whose symbol is in the alphabet: it counts registrations, not cells.
\<close>

lemma add_all_counter:
  "wf_dfa d \<Longrightarrow> add_all d ts = Inr d' \<Longrightarrow>
   incompleteCells d' =
     incompleteCells d - int (length (filter (\<lambda>(p, a, q). a \<in> set (characterSet d)) ts))"
proof (induction ts arbitrary: d)
  case Nil
  then show ?case by simp
next
  case (Cons t ts)
  obtain p a q where t: "t = (p, a, q)" by (cases t)
  from Cons.prems(2) obtain d1 where
    d1: "addTransition d p a q = Inr d1" "add_all d1 ts = Inr d'"
    unfolding t by (auto split: sum.splits)
  note wf1 = addTransition_wf [OF Cons.prems(1) d1(1)]
  from addTransition_frame [OF d1(1)] have cs: "characterSet d1 = characterSet d" by simp
  from Cons.IH [OF wf1 d1(2)] addTransition_counter [OF Cons.prems(1) d1(1)]
  show ?case unfolding t cs by simp
qed

text \<open>
  The search of the alphabet reads the alphabet and its count only, so a registration
  does not change it; and what a registration stored is what the table then gives for
  that state and symbol, whatever the cell held before.
\<close>

lemma indexOf_loop_fields:
  assumes "characterSet d' = characterSet d" and "characters d' = characters d"
  shows "indexOf_loop d' c i = indexOf_loop d c i"
  using assms
proof (induction d c i rule: indexOf_loop.induct)
  case (1 d c i)
  show ?case
  proof (cases "i < characters d")
    case False
    with 1(3) show ?thesis by (simp add: indexOf_loop_end)
  next
    case True
    show ?thesis
    proof (cases "array_read (characterSet d) i")
      case (Inl e)
      with True 1(2,3) show ?thesis
        by (simp add: indexOf_loop.simps [of d c i] indexOf_loop.simps [of d' c i])
    next
      case (Inr x)
      from 1(1) [OF True Inr _ 1(2,3)]
      have "c \<noteq> x \<Longrightarrow> indexOf_loop d' c (i + 1) = indexOf_loop d c (i + 1)" .
      with True 1(2,3) Inr show ?thesis
        by (simp add: indexOf_loop_step [of i d x c] indexOf_loop_step [of i d' x c])
    qed
  qed
qed

lemma addTransition_then_read:
  assumes "wf_dfa d" and "a \<in> set (characterSet d)" and "0 \<le> p" and "p < states d"
    and "INT_MIN < incompleteCells d"
  shows "\<exists>d' k. addTransition d p a q = Inr d' \<and> indexOf d' a = Inr (int k) \<and>
           table_read (transitionTable d') p (int k) = Inr q \<and>
           incompleteCells d' = incompleteCells d - 1"
proof -
  let ?t = "transitionTable d"
  from addTransition_present [OF assms, of q] obtain k where
    k: "k < length (characterSet d)" "indexOf d a = Inr (int k)" and
    d': "addTransition d p a q =
           Inr (d\<lparr>transitionTable := ?t[nat p := (?t ! nat p)[k := Some q]],
                   incompleteCells := incompleteCells d - 1\<rparr>)" (is "_ = Inr ?d'")
    by blast
  from assms(1,3,4) have p: "nat p < length ?t" by (simp add: wf_dfa_def)
  then have "?t ! nat p \<in> set ?t" by simp
  with assms(1) k(1) have kk: "k < length (?t ! nat p)" by (simp add: wf_dfa_def)
  have "indexOf ?d' a = indexOf d a"
    unfolding indexOf_def by (rule indexOf_loop_fields) simp_all
  moreover have "table_read (transitionTable ?d') p (int k) = Inr q"
    using p kk assms(3) by (simp add: table_read_def array_read_def)
  ultimately show ?thesis using d' k(2) by simp
qed

text \<open>
  C2. The specification asks that \<open>checkString\<close> return \<open>IncompleteTable\<close> exactly
  when some cell was never set. The code does not do so, in either direction. After
  \<open>createDFA("01", 1, 0, 1, {0})\<close> and two calls \<open>addTransition(0, '0', 0)\<close> the cell of
  \<open>(0, '1')\<close> was never set, the counter is 0 and \<open>checkString("")\<close> returns
  \<open>Accepted\<close>. After \<open>createDFA("0", 1, 0, 1, {0})\<close> and the same two calls the only
  cell is set, the counter is \<open>-1\<close> and \<open>checkString("")\<close> returns \<open>IncompleteTable\<close>.
\<close>

theorem counter_miscounts_repeated_registration:
  "map_result transitionTable
     (build ''01'' 1 0 1 [0] [(0, CHR ''0'', 0), (0, CHR ''0'', 0)]) = Inr [[Some 0, None]] \<and>
   map_result incompleteCells
     (build ''01'' 1 0 1 [0] [(0, CHR ''0'', 0), (0, CHR ''0'', 0)]) = Inr 0 \<and>
   check_built ''01'' 1 0 1 [0] [(0, CHR ''0'', 0), (0, CHR ''0'', 0)] [] =
     Inr (outcome_code Accepted) \<and>
   map_result transitionTable
     (build ''0'' 1 0 1 [0] [(0, CHR ''0'', 0), (0, CHR ''0'', 0)]) = Inr [[Some 0]] \<and>
   map_result incompleteCells
     (build ''0'' 1 0 1 [0] [(0, CHR ''0'', 0), (0, CHR ''0'', 0)]) = Inr (- 1) \<and>
   check_built ''0'' 1 0 1 [0] [(0, CHR ''0'', 0), (0, CHR ''0'', 0)] [] =
     Inr (outcome_code IncompleteTable)"
  by code_simp

text \<open>
  C4. The specification asks that a second registration of the same cell leave the
  counter as the first left it. The code takes one from the counter again: after
  \<open>createDFA("0", 2, 0, 1, {1})\<close> the counter is 2, after \<open>addTransition(0, '0', 0)\<close>
  it is 1, and after \<open>addTransition(0, '0', 1)\<close> it is 0, with the cell of \<open>(1, '0')\<close>
  never set. The other half of the claim holds there: the cell holds the later target 1,
  and \<open>checkString("0")\<close> ends in state 1, which is accepting.
\<close>

theorem second_registration_decrements_again:
  "map_result incompleteCells (build ''0'' 2 0 1 [1] []) = Inr 2 \<and>
   map_result incompleteCells (build ''0'' 2 0 1 [1] [(0, CHR ''0'', 0)]) = Inr 1 \<and>
   map_result incompleteCells
     (build ''0'' 2 0 1 [1] [(0, CHR ''0'', 0), (0, CHR ''0'', 1)]) = Inr 0 \<and>
   map_result transitionTable
     (build ''0'' 2 0 1 [1] [(0, CHR ''0'', 0), (0, CHR ''0'', 1)]) = Inr [[Some 1], [None]] \<and>
   check_built ''0'' 2 0 1 [1] [(0, CHR ''0'', 0), (0, CHR ''0'', 1)] ''0'' =
     Inr (outcome_code Accepted)"
  by code_simp

subsection \<open>Accesses to the table\<close>

lemma table_read_populated:
  assumes "wf_dfa d"
    and "\<forall>row \<in> set (transitionTable d). \<forall>cell \<in> set row.
           \<exists>q. cell = Some q \<and> 0 \<le> q \<and> q < states d"
    and "0 \<le> s" and "s < states d" and "k < length (characterSet d)"
  shows "\<exists>q. table_read (transitionTable d) s (int k) = Inr q \<and> 0 \<le> q \<and> q < states d"
proof -
  let ?t = "transitionTable d"
  from assms(1,3,4) have s: "nat s < length ?t" by (simp add: wf_dfa_def)
  then have row: "?t ! nat s \<in> set ?t" by simp
  with assms(1,5) have k: "k < length (?t ! nat s)" by (simp add: wf_dfa_def)
  then have "?t ! nat s ! k \<in> set (?t ! nat s)" by simp
  with assms(2) row obtain q where "?t ! nat s ! k = Some q" "0 \<le> q" "q < states d"
    by blast
  with s k assms(3) show ?thesis by (simp add: table_read_def array_read_def)
qed

lemma spec_fold_defined:
  assumes "wf_dfa d"
    and "\<forall>row \<in> set (transitionTable d). \<forall>cell \<in> set row.
           \<exists>q. cell = Some q \<and> 0 \<le> q \<and> q < states d"
  shows "0 \<le> s \<Longrightarrow> s < states d \<Longrightarrow> spec_fold d s inp \<noteq> NoEntry"
proof (induction inp arbitrary: s)
  case Nil
  show ?case by simp
next
  case (Cons a inp)
  show ?case
  proof (cases "SymbolIndex (characterSet d) a")
    case None
    then show ?thesis by simp
  next
    case (Some k)
    then have k: "k < length (characterSet d)" by (rule SymbolIndex_less)
    from table_read_populated [OF assms Cons.prems k] obtain q where
      q: "table_read (transitionTable d) s (int k) = Inr q" "0 \<le> q" "q < states d" by blast
    from q(1) table_read_spec [of d s k] have "spec_table d s k = Some q" by simp
    with Cons.IH [OF q(2,3)] Some show ?thesis by simp
  qed
qed

text \<open>
  On a table with every cell registered with a state, and an initial state that is a
  state, every access of \<open>checkString\<close> is inside the table and the call returns.
\<close>

lemma checkString_defined:
  assumes "wf_dfa d" and "populated d" and "int (length inp) \<le> INT_MAX"
  shows "\<exists>r. checkString d inp = Inr r"
proof (cases "incompleteCells d = 0")
  case False
  then show ?thesis by (simp add: checkString_incomplete)
next
  case True
  from assms(2) spec_fold_defined [OF assms(1), of "initialState d" inp]
  have "spec_fold d (initialState d) inp \<noteq> NoEntry"
    unfolding populated_def by blast
  then have "\<exists>y. spec_checkString d inp = Some y"
    by (cases "spec_fold d (initialState d) inp") (simp_all add: spec_checkString_def)
  with checkString_eq_spec [OF assms(1) True assms(3)] show ?thesis
    by (auto simp: result_of_Some)
qed

text \<open>
  C10. The claim is that, with every state argument in range, every access to the table
  is in range and the current state of \<open>checkString\<close> stays a state. The code does not
  secure this. After \<open>createDFA("01", 2, 0, 1, {0})\<close> and four calls
  \<open>addTransition(0, '0', 0)\<close>, all with states in \<open>[0, 2)\<close>, the counter is 0 although
  three cells were never stored; \<open>checkString("11")\<close> passes the test of line 118, reads
  the cell of \<open>(0, '1')\<close>, which holds what \<open>malloc\<close> left there, and makes that value
  its current state and the row index of its next access.
\<close>

theorem checkString_reads_unset_cell:
  "map_result transitionTable
     (build ''01'' 2 0 1 [0]
        [(0, CHR ''0'', 0), (0, CHR ''0'', 0), (0, CHR ''0'', 0), (0, CHR ''0'', 0)]) =
     Inr [[Some 0, None], [None, None]] \<and>
   map_result incompleteCells
     (build ''01'' 2 0 1 [0]
        [(0, CHR ''0'', 0), (0, CHR ''0'', 0), (0, CHR ''0'', 0), (0, CHR ''0'', 0)]) = Inr 0 \<and>
   check_built ''01'' 2 0 1 [0]
     [(0, CHR ''0'', 0), (0, CHR ''0'', 0), (0, CHR ''0'', 0), (0, CHR ''0'', 0)] ''11'' =
     Inl UninitialisedRead"
  by code_simp

end
